theory Spec2Isabelle
  imports Main "HOL-Library.AList"
begin

section \<open>JavaScript values used by the bot\<close>

text \<open>
  A JavaScript string is a \<^typ>\<open>string\<close>. The parser only ever inspects the characters
  \<open>@\<close>, \<open>+\<close>, \<open>-\<close>, the decimal digits and the line feed, all of them ASCII, so the
  byte view of a string and JavaScript's view by code units agree on everything the
  code looks at. JavaScript numbers are modelled as \<^typ>\<open>int\<close>: the counters are
  integers, and they are exact in JavaScript as long as they stay below \<open>2^53\<close>.
\<close>

datatype js_error = TypeError

text \<open>\<^verbatim>\<open>patchString.split('\n')\<close>: the pieces between line feeds; the empty string
  gives one empty piece.\<close>

fun split_newline :: "string \<Rightarrow> string list" where
  "split_newline [] = [[]]"
| "split_newline (c # cs) =
     (if c = CHR 0x0A then [] # split_newline cs
      else (case split_newline cs of [] \<Rightarrow> [[c]] | l # ls \<Rightarrow> (c # l) # ls))"

text \<open>\<^verbatim>\<open>line.match(/^@@.*/)\<close> is not null exactly when the line starts with two \<open>@\<close>
  (\<open>.*\<close> also matches the empty rest).\<close>

fun is_hunk_header :: "string \<Rightarrow> bool" where
  "is_hunk_header (a # b # _) = (a = CHR ''@'' \<and> b = CHR ''@'')"
| "is_hunk_header _ = False"

definition is_digit :: "char \<Rightarrow> bool" where
  "is_digit c = (c \<in> set ''0123456789'')"

text \<open>\<^verbatim>\<open>line.match(/\+[0-9]+/)\<close>: the leftmost \<open>+\<close> that is followed by a digit, with
  the longest run of digits after it; \<open>None\<close> stands for the \<^verbatim>\<open>null\<close> of a failed match.
  The result is element \<open>[0]\<close> of the match, the matched text.\<close>

fun match_plus_digits :: "string \<Rightarrow> string option" where
  "match_plus_digits [] = None"
| "match_plus_digits (c # cs) =
     (if c = CHR ''+'' \<and> takeWhile is_digit cs \<noteq> [] then Some (c # takeWhile is_digit cs)
      else match_plus_digits cs)"

text \<open>The numeric value of a string of decimal digits, as the subtraction
  \<^verbatim>\<open>"12" - 1\<close> converts it.\<close>

definition digit_value :: "char \<Rightarrow> int" where
  "digit_value c = int (of_char c) - 48"

definition to_number :: "string \<Rightarrow> int" where
  "to_number ds = foldl (\<lambda>n c. 10 * n + digit_value c) 0 ds"

text \<open>\<^verbatim>\<open>line[0]\<close>: \<^verbatim>\<open>undefined\<close> on the empty line, which is neither \<open>'-'\<close> nor \<open>'+'\<close>.\<close>

fun first_char :: "string \<Rightarrow> char option" where
  "first_char [] = None"
| "first_char (c # _) = Some c"

section \<open>getLineMapFromPatchString\<close>

text \<open>The two counters and the accumulator of the \<^verbatim>\<open>reduce\<close>. The line map is the
  object \<^verbatim>\<open>{'file line number': 'diff view line number'}\<close>.\<close>

record parser_state =
  diffLineIndex :: int
  fileLineIndex :: int
  lineMap :: "int \<rightharpoonup> int"

text \<open>The callback of the \<^verbatim>\<open>reduce\<close>. Indexing the \<^verbatim>\<open>null\<close> of a failed match with
  \<open>[0]\<close> throws a TypeError.\<close>

definition reducer :: "parser_state \<Rightarrow> string \<Rightarrow> js_error + parser_state" where
  "reducer s line =
     (if is_hunk_header line then
        (case match_plus_digits line of
           None \<Rightarrow> Inl TypeError
         | Some m \<Rightarrow> Inr (s\<lparr>fileLineIndex := to_number (tl m) - 1\<rparr>))
      else
        (let s1 = s\<lparr>diffLineIndex := diffLineIndex s + 1\<rparr> in
         if first_char line \<noteq> Some (CHR ''-'') then
           (let s2 = s1\<lparr>fileLineIndex := fileLineIndex s1 + 1\<rparr> in
            if first_char line = Some (CHR ''+'') then
              Inr (s2\<lparr>lineMap := (lineMap s2)(fileLineIndex s2 \<mapsto> diffLineIndex s2)\<rparr>)
            else Inr s2)
         else Inr s1))"

fun reduce :: "parser_state \<Rightarrow> string list \<Rightarrow> js_error + parser_state" where
  "reduce s [] = Inr s"
| "reduce s (line # lines) =
     (case reducer s line of Inl e \<Rightarrow> Inl e | Inr s' \<Rightarrow> reduce s' lines)"

definition initial_state :: parser_state where
  "initial_state = \<lparr>diffLineIndex = 0, fileLineIndex = 0, lineMap = Map.empty\<rparr>"

definition getLineMapFromPatchString :: "string \<Rightarrow> js_error + (int \<rightharpoonup> int)" where
  "getLineMapFromPatchString patchString =
     (case reduce initial_state (split_newline patchString) of
        Inl e \<Rightarrow> Inl e
      | Inr s \<Rightarrow> Inr (lineMap s))"

section \<open>Grouping the lint errors by line\<close>

text \<open>
  The object \<^verbatim>\<open>{ line, message }\<close> that the grouping builds for each line, and an ESLint
  message, which has a \<^verbatim>\<open>ruleId\<close> besides (\<open>None\<close> when the property is
  \<^verbatim>\<open>undefined\<close>). \<^verbatim>\<open>sendSingleComment\<close> reads \<^verbatim>\<open>message\<close> and \<^verbatim>\<open>line\<close> only, and is
  handed the objects of the grouping.
\<close>

record group =
  line :: int
  message :: string

record lintError = group +
  ruleId :: "string option"

text \<open>The template literal \<^verbatim>\<open>`**${ruleId}**: ${message}`\<close>.\<close>

definition template :: "string \<Rightarrow> string \<Rightarrow> string" where
  "template r m = ''**'' @ r @ ''**: '' @ m"

text \<open>\<^verbatim>\<open>Array.prototype.join('\n')\<close> on an array of strings.\<close>

fun join_newline :: "string list \<Rightarrow> string" where
  "join_newline [] = []"
| "join_newline [x] = x"
| "join_newline (x # y # ys) = x @ [CHR 0x0A] @ join_newline (y # ys)"

text \<open>
  The callback of the \<^verbatim>\<open>reduce\<close> in \<^verbatim>\<open>groupLintErrorsByLine\<close> (and in \<^verbatim>\<open>sendComments\<close> of
  \<^verbatim>\<open>server.js\<close>, which has the same body). The accumulator is an object whose property
  names are \<^verbatim>\<open>'.' + line\<close>; such names are never array indices, so \<^verbatim>\<open>Object.keys\<close>
  lists them in the order they were first set. It is modelled as an association list
  in that order, keyed by the line itself (\<^verbatim>\<open>'.' + line\<close> is injective on numbers).
  A property that is set holds an object, which is truthy.
\<close>

definition group_callback :: "(int \<times> group) list \<Rightarrow> lintError \<Rightarrow> (int \<times> group) list" where
  "group_callback acc lintError =
     (let rid = (case ruleId lintError of None \<Rightarrow> ''Eslint'' | Some r \<Rightarrow> r);
          key = line lintError;
          acc1 = (if map_of acc key = None
                  then AList.update key \<lparr>line = line lintError, message = ''''\<rparr> acc
                  else acc)
      in AList.map_entry key
           (\<lambda>g. g\<lparr>message := join_newline [message g, template rid (message lintError)]\<rparr>)
           acc1)"

definition groupLintErrorsByLine :: "lintError list \<Rightarrow> (int \<times> group) list" where
  "groupLintErrorsByLine lintErrors = foldl group_callback [] lintErrors"

text \<open>
  The grouping in closed form: the keys in the order they are first seen, the entry of
  one lint error, and the body of a line, in which every entry of that line follows a
  line feed.
\<close>

definition first_seen :: "int list \<Rightarrow> int list" where
  "first_seen ks = rev (remdups (rev ks))"

definition entry_of :: "lintError \<Rightarrow> string" where
  "entry_of e = template (case ruleId e of None \<Rightarrow> ''Eslint'' | Some r \<Rightarrow> r) (message e)"

definition body_of :: "lintError list \<Rightarrow> int \<Rightarrow> string" where
  "body_of es k = concat (map (\<lambda>e. CHR 0x0A # entry_of e) (filter (\<lambda>e. line e = k) es))"

section \<open>The grouping on a heap\<close>

text \<open>
  The same function with its objects made explicit, to state what it writes. A heap is
  a list of objects and an address is an index into it. The array \<^verbatim>\<open>lintErrors\<close> is the
  list of the addresses of its elements. The call allocates the accumulator \<^verbatim>\<open>{}\<close>, the
  callback allocates \<^verbatim>\<open>{ line, message: '' }\<close> for a key it has not seen and sets the
  property of the accumulator to it, then assigns \<^verbatim>\<open>acc[key].message\<close>. An allocation
  appends to the heap. An accumulator is the list of its properties, each a key with
  the address of the object it refers to. The result is \<open>None\<close> when an address does not hold an object of
  the kind the code reads there, which no run on an array of lint errors meets.
\<close>

type_synonym addr = nat

datatype obj = Finding lintError | Group group | Props "(int \<times> addr) list"

type_synonym heap = "obj list"

definition deref :: "heap \<Rightarrow> addr \<Rightarrow> obj option" where
  "deref h a = (if a < length h then Some (h ! a) else None)"

definition heap_callback :: "addr \<Rightarrow> heap \<Rightarrow> addr \<Rightarrow> heap option" where
  "heap_callback acc h f =
     (case deref h f of
        Some (Finding lintError) \<Rightarrow>
          (case deref h acc of
             Some (Props props) \<Rightarrow>
               (let rid = (case ruleId lintError of None \<Rightarrow> ''Eslint'' | Some r \<Rightarrow> r);
                    key = line lintError;
                    h1 = (if map_of props key = None
                          then (h @ [Group \<lparr>line = line lintError, message = ''''\<rparr>])
                                 [acc := Props (AList.update key (length h) props)]
                          else h)
                in (case deref h1 acc of
                      Some (Props props1) \<Rightarrow>
                        (case map_of props1 key of
                           None \<Rightarrow> None
                         | Some g \<Rightarrow>
                             (case deref h1 g of
                                Some (Group grp) \<Rightarrow>
                                  Some (h1[g := Group (grp\<lparr>message :=
                                     join_newline [message grp, template rid (message lintError)]\<rparr>)])
                              | _ \<Rightarrow> None))
                    | _ \<Rightarrow> None))
           | _ \<Rightarrow> None)
      | _ \<Rightarrow> None)"

fun heap_reduce :: "addr \<Rightarrow> heap \<Rightarrow> addr list \<Rightarrow> heap option" where
  "heap_reduce acc h [] = Some h"
| "heap_reduce acc h (f # fs) =
     (case heap_callback acc h f of None \<Rightarrow> None | Some h' \<Rightarrow> heap_reduce acc h' fs)"

definition groupLintErrorsByLine_heap :: "heap \<Rightarrow> addr list \<Rightarrow> (heap \<times> addr) option" where
  "groupLintErrorsByLine_heap h lintErrors =
     (let acc = length h in
      case heap_reduce acc (h @ [Props []]) lintErrors of
        None \<Rightarrow> None
      | Some h' \<Rightarrow> Some (h', acc))"

text \<open>The grouping that a heap holds at the address of an accumulator: each key with
  the object its property refers to.\<close>

definition read_group :: "heap \<Rightarrow> int \<times> addr \<Rightarrow> (int \<times> group) option" where
  "read_group h p = (case deref h (snd p) of Some (Group g) \<Rightarrow> Some (fst p, g) | _ \<Rightarrow> None)"

definition read_groups :: "heap \<Rightarrow> addr \<Rightarrow> (int \<times> group) list option" where
  "read_groups h acc =
     (case deref h acc of
        Some (Props props) \<Rightarrow> those (map (read_group h) props)
      | _ \<Rightarrow> None)"

text \<open>A property of the accumulator and the entry of the grouping it stands for.\<close>

definition group_at :: "heap \<Rightarrow> int \<times> addr \<Rightarrow> int \<times> group \<Rightarrow> bool" where
  "group_at h p q = (fst p = fst q \<and> deref h (snd p) = Some (Group (snd q)))"

section \<open>Sending the comments\<close>

record env =
  REPOSITORY_OWNER :: string
  REPOSITORY_NAME :: string

text \<open>The argument of one call of \<^verbatim>\<open>github.pullRequests.createComment\<close>.\<close>

record comment =
  user :: string
  repo :: string
  number :: int
  body :: string
  commit_id :: string
  path :: string
  position :: int

text \<open>
  \<^verbatim>\<open>sendSingleComment\<close> returns the calls of \<^verbatim>\<open>createComment\<close> it makes. A missing
  property of the line map reads as \<^verbatim>\<open>undefined\<close>, which is falsy, and so is the
  number \<open>0\<close>.
\<close>

definition sendSingleComment ::
  "env \<Rightarrow> string \<Rightarrow> (int \<rightharpoonup> int) \<Rightarrow> group \<Rightarrow> string \<Rightarrow> int \<Rightarrow> comment list" where
  "sendSingleComment e filename lmap lintError sha prNumber =
     (case lmap (line lintError) of
        None \<Rightarrow> []
      | Some diffLinePosition \<Rightarrow>
          if diffLinePosition \<noteq> 0 then
            [\<lparr>user = REPOSITORY_OWNER e, repo = REPOSITORY_NAME e, number = prNumber,
              body = message lintError, commit_id = sha, path = filename,
              position = diffLinePosition\<rparr>]
          else [])"

text \<open>\<^verbatim>\<open>sendComments\<close> of \<^verbatim>\<open>server.js\<close>: group, then one \<^verbatim>\<open>sendSingleComment\<close> for each
  key of the grouping.\<close>

definition sendComments ::
  "env \<Rightarrow> string \<Rightarrow> (int \<rightharpoonup> int) \<Rightarrow> lintError list \<Rightarrow> string \<Rightarrow> int \<Rightarrow> comment list" where
  "sendComments e filename lmap lintErrors sha prNumber =
     concat (map (\<lambda>(key, g). sendSingleComment e filename lmap g sha prNumber)
                 (groupLintErrorsByLine lintErrors))"

text \<open>\<^verbatim>\<open>sendSingleComment\<close> in the second file of \<^verbatim>\<open>unnamed/part_001\<close> (lines 314 to 344),
  which is handed the lint errors themselves and builds the body of the comment.\<close>

definition sendSingleComment_part_001_314 ::
  "env \<Rightarrow> string \<Rightarrow> (int \<rightharpoonup> int) \<Rightarrow> lintError \<Rightarrow> string \<Rightarrow> int \<Rightarrow> comment list" where
  "sendSingleComment_part_001_314 e filename lmap lintError sha prNumber =
     (let rid = (case ruleId lintError of None \<Rightarrow> ''Eslint'' | Some r \<Rightarrow> r) in
      case lmap (line lintError) of
        None \<Rightarrow> []
      | Some diffLinePosition \<Rightarrow>
          if diffLinePosition \<noteq> 0 then
            [\<lparr>user = REPOSITORY_OWNER e, repo = REPOSITORY_NAME e, number = prNumber,
              body = template rid (message lintError), commit_id = sha, path = filename,
              position = diffLinePosition\<rparr>]
          else [])"

section \<open>The webhook\<close>

text \<open>
  The body of a request, as far as the handler reads it. \<^verbatim>\<open>bodyParser.json()\<close> always
  leaves an object in \<^verbatim>\<open>request.body\<close>; its properties \<^verbatim>\<open>action\<close>, \<^verbatim>\<open>number\<close> (the field
  \<open>pr_number\<close>) and \<^verbatim>\<open>pull_request\<close> may be missing, and a \<^verbatim>\<open>pull_request\<close> that is there
  is an object.
\<close>

record pull_request =
  head_sha :: string
  head_ref :: string

record payload =
  action :: "string option"
  pr_number :: "int option"
  pull_request :: "pull_request option"

datatype effect = TreatPayload payload | ConsoleLog | ResponseEnd

text \<open>The handler of \<^verbatim>\<open>app.post('/')\<close> in \<^verbatim>\<open>server.js\<close>, as the effects it has, in order.\<close>

definition app_post :: "payload \<Rightarrow> effect list" where
  "app_post p =
     (if pull_request p \<noteq> None \<and> action p = Some ''opened'' then [TreatPayload p] else [])
     @ [ConsoleLog, ResponseEnd]"

text \<open>The handler in the first file of \<^verbatim>\<open>unnamed/part_001\<close> (lines 153 to 162).\<close>

definition app_post_part_001_153 :: "payload \<Rightarrow> effect list" where
  "app_post_part_001_153 p =
     (let openedOrReopened = (action p = Some ''opened'' \<or> action p = Some ''reopened'') in
      (if pull_request p \<noteq> None \<and> openedOrReopened then [ConsoleLog, TreatPayload p] else [])
      @ [ResponseEnd])"

text \<open>The handler in the second file of \<^verbatim>\<open>unnamed/part_001\<close> (lines 381 to 387).\<close>

definition app_post_part_001_381 :: "payload \<Rightarrow> effect list" where
  "app_post_part_001_381 p =
     (if pull_request p \<noteq> None then [TreatPayload p] else []) @ [ConsoleLog, ResponseEnd]"

section \<open>The terms of the specification\<close>

text \<open>A line that begins with \<open>+\<close> and is not a hunk header; a line that begins with the
  deletion marker.\<close>

definition is_addition :: "string \<Rightarrow> bool" where
  "is_addition l = (first_char l = Some (CHR ''+'') \<and> \<not> is_hunk_header l)"

definition is_deletion :: "string \<Rightarrow> bool" where
  "is_deletion l = (first_char l = Some (CHR ''-''))"

text \<open>A line contains a \<open>+\<close> immediately followed by a decimal digit.\<close>

fun contains_plus_digit :: "string \<Rightarrow> bool" where
  "contains_plus_digit (c # d # cs) =
     ((c = CHR ''+'' \<and> is_digit d) \<or> contains_plus_digit (d # cs))"
| "contains_plus_digit _ = False"

text \<open>
  The hunk header of the specification,
  \<^verbatim>\<open>@@ -<old-start>[,<old-len>] +<new-start>[,<new-len>] @@\<close>, read field by field.
  \<open>spec_range\<close> reads \<^verbatim>\<open><start>[,<len>]\<close> and returns the start and the text after the
  range; \<open>spec_new_start\<close> is the new-start of a line of that shape, and \<open>None\<close> on any
  other line.
\<close>

fun strip_prefix :: "string \<Rightarrow> string \<Rightarrow> string option" where
  "strip_prefix [] s = Some s"
| "strip_prefix (p # ps) [] = None"
| "strip_prefix (p # ps) (c # cs) = (if p = c then strip_prefix ps cs else None)"

definition spec_range :: "string \<Rightarrow> (int \<times> string) option" where
  "spec_range s =
     (let ds = takeWhile is_digit s; r = dropWhile is_digit s in
      if ds = [] then None
      else (case r of
              [] \<Rightarrow> Some (to_number ds, [])
            | c # r' \<Rightarrow>
                if c = CHR '','' then
                  (if takeWhile is_digit r' = [] then None
                   else Some (to_number ds, dropWhile is_digit r'))
                else Some (to_number ds, r)))"

definition spec_new_start :: "string \<Rightarrow> int option" where
  "spec_new_start l =
     (case strip_prefix ''@@ -'' l of None \<Rightarrow> None | Some r1 \<Rightarrow>
      (case spec_range r1 of None \<Rightarrow> None | Some (old_start, r2) \<Rightarrow>
       (case strip_prefix '' +'' r2 of None \<Rightarrow> None | Some r3 \<Rightarrow>
        (case spec_range r3 of None \<Rightarrow> None | Some (new_start, r4) \<Rightarrow>
         (case strip_prefix '' @@'' r4 of None \<Rightarrow> None | Some rest \<Rightarrow> Some new_start)))))"

definition spec_header :: "string \<Rightarrow> bool" where
  "spec_header l = (spec_new_start l \<noteq> None)"

text \<open>
  A hunk header declares the starting line number of the new-file side for the lines
  that follow, until the next header or the end of the patch. For a position \<open>i\<close> in
  the list of lines, \<open>hunk_header_of\<close> is the last header before \<open>i\<close> and \<open>hunk_lines\<close>
  are the lines between that header and \<open>i\<close>. Of these, a line that begins with the
  deletion marker is a line of the old file only, and a line that begins with a
  backslash is the marker \<^verbatim>\<open>No newline at end of file\<close>, which says how the line before
  it ends and is a line of neither file. Every other line of a hunk, a context line or
  an addition, is a line of the new file. So a line at position \<open>i\<close> that is itself on
  the new-file side has the number new-start plus the count of the new-file lines
  between its header and itself. A position with no header before it has no new-file
  line number.
\<close>

definition is_marker :: "string \<Rightarrow> bool" where
  "is_marker l = (first_char l = Some (CHR 0x5C))"

definition new_file_side :: "string \<Rightarrow> bool" where
  "new_file_side l = (\<not> is_deletion l \<and> \<not> is_marker l)"

definition hunk_lines :: "string list \<Rightarrow> string list" where
  "hunk_lines pre = rev (takeWhile (\<lambda>l. \<not> spec_header l) (rev pre))"

definition hunk_header_of :: "string list \<Rightarrow> string option" where
  "hunk_header_of pre =
     (case dropWhile (\<lambda>l. \<not> spec_header l) (rev pre) of [] \<Rightarrow> None | h # _ \<Rightarrow> Some h)"

definition spec_new_file_line :: "string list \<Rightarrow> nat \<Rightarrow> int option" where
  "spec_new_file_line ls i =
     (case hunk_header_of (take i ls) of
        None \<Rightarrow> None
      | Some h \<Rightarrow>
          (case spec_new_start h of
             None \<Rightarrow> None
           | Some n \<Rightarrow>
               Some (n + int (length (filter new_file_side (hunk_lines (take i ls)))))))"

text \<open>The new-file line numbers of the addition lines of a patch.\<close>

definition spec_addition_line_numbers :: "string list \<Rightarrow> int set" where
  "spec_addition_line_numbers ls =
     set (concat (map (\<lambda>i. if is_addition (ls ! i)
                            then (case spec_new_file_line ls i of None \<Rightarrow> [] | Some n \<Rightarrow> [n])
                            else [])
                      [0..<length ls]))"

text \<open>
  A unified-diff patch begins with a hunk header, and each of its lines that begins
  with \<open>@@\<close> is a hunk header of the shape above.
\<close>

definition unified_diff :: "string list \<Rightarrow> bool" where
  "unified_diff ls =
     ((case ls of [] \<Rightarrow> False | l # _ \<Rightarrow> spec_header l) \<and>
      (\<forall>l\<in>set ls. is_hunk_header l \<longrightarrow> spec_header l))"

section \<open>Quantities of the fold\<close>

text \<open>The number that the parser reads off a header line, when the match succeeds.\<close>

definition code_new_start :: "string \<Rightarrow> int option" where
  "code_new_start l = map_option (\<lambda>m. to_number (tl m)) (match_plus_digits l)"

text \<open>
  The counters after a prefix of the lines, in closed form: the diff position is the
  number of lines that are not headers; the file line is computed from the last line
  backwards.
\<close>

fun file_line_rev :: "string list \<Rightarrow> int" where
  "file_line_rev [] = 0"
| "file_line_rev (l # rs) =
     (if is_hunk_header l then (case code_new_start l of None \<Rightarrow> 0 | Some n \<Rightarrow> n - 1)
      else file_line_rev rs + (if is_deletion l then 0 else 1))"

definition file_line_after :: "string list \<Rightarrow> int" where
  "file_line_after pre = file_line_rev (rev pre)"

definition diff_pos_after :: "string list \<Rightarrow> int" where
  "diff_pos_after pre = int (length (filter (\<lambda>l. \<not> is_hunk_header l) pre))"

text \<open>
  The entries in the order the parser records them. At an addition line the callback
  stores \<^verbatim>\<open>lineMap[fileLineIndex] = diffLineIndex\<close> with the values both counters have
  after the line, which are those of the state after the prefix that ends with it.
\<close>

definition entry_at :: "string list \<Rightarrow> nat \<Rightarrow> (int \<times> int) list" where
  "entry_at ls i =
     (if is_addition (ls ! i)
      then (case reduce initial_state (take (Suc i) ls) of
              Inl e \<Rightarrow> []
            | Inr s \<Rightarrow> [(fileLineIndex s, diffLineIndex s)])
      else [])"

definition entries_recorded :: "string list \<Rightarrow> (int \<times> int) list" where
  "entries_recorded ls = concat (map (entry_at ls) [0..<length ls])"

section \<open>Concrete patches\<close>

text \<open>
  Claim C6. The patch \<^verbatim>\<open>"@@ -1,2 +1,3 @@\n context\n+added line\n context2"\<close> parses
  to the line map \<open>{2: 2}\<close>: its single entry sends file line 2 to diff position 2.
\<close>

theorem scenario1_line_map:
  "getLineMapFromPatchString
     (''@@ -1,2 +1,3 @@'' @ [CHR 0x0A] @ '' context'' @ [CHR 0x0A] @
      ''+added line'' @ [CHR 0x0A] @ '' context2'')
   = Inr [2 \<mapsto> 2]"
  by (simp add: getLineMapFromPatchString_def initial_state_def reducer_def to_number_def
      digit_value_def is_digit_def)

text \<open>
  Claim C8. The empty patch string splits into one empty line, and parsing it returns
  the empty line map.
\<close>

theorem empty_patch_empty_map:
  "split_newline [] = [[]] \<and> getLineMapFromPatchString [] = Inr Map.empty"
  by (simp add: getLineMapFromPatchString_def initial_state_def reducer_def)

section \<open>When the parser returns\<close>

lemma takeWhile_nonempty: "takeWhile P xs \<noteq> [] \<longleftrightarrow> (\<exists>y ys. xs = y # ys \<and> P y)"
  by (cases xs) auto

lemma match_plus_digits_iff: "match_plus_digits l \<noteq> None \<longleftrightarrow> contains_plus_digit l"
  by (induction l rule: contains_plus_digit.induct) (auto simp: takeWhile_nonempty)

lemma reducer_ok_iff:
  "(\<exists>s'. reducer s l = Inr s') \<longleftrightarrow> (is_hunk_header l \<longrightarrow> contains_plus_digit l)"
  using match_plus_digits_iff [of l]
  by (auto simp: reducer_def Let_def split: option.splits)

lemma reduce_ok_iff:
  "(\<exists>s'. reduce s ls = Inr s') \<longleftrightarrow> (\<forall>l\<in>set ls. is_hunk_header l \<longrightarrow> contains_plus_digit l)"
proof (induction ls arbitrary: s)
  case Nil
  show ?case by simp
next
  case (Cons l ls)
  show ?case
  proof (cases "reducer s l")
    case (Inl e)
    with reducer_ok_iff [of s l] show ?thesis by auto
  next
    case (Inr s1)
    with reducer_ok_iff [of s l] Cons.IH [of s1] show ?thesis by auto
  qed
qed

text \<open>
  Claim C9. Parsing returns a line map exactly when every line that begins with \<open>@@\<close>
  contains a \<open>+\<close> immediately followed by a decimal digit; when it does not return a map
  it throws the TypeError, and it does so on the line \<^verbatim>\<open>@@ malformed @@\<close>.
\<close>

theorem parser_total_iff:
  "((\<exists>m. getLineMapFromPatchString p = Inr m) \<longleftrightarrow>
      (\<forall>l\<in>set (split_newline p). is_hunk_header l \<longrightarrow> contains_plus_digit l)) \<and>
   ((\<forall>m. getLineMapFromPatchString p \<noteq> Inr m) \<longleftrightarrow>
      getLineMapFromPatchString p = Inl TypeError) \<and>
   getLineMapFromPatchString ''@@ malformed @@'' = Inl TypeError"
proof -
  have a: "(\<exists>m. getLineMapFromPatchString p = Inr m) \<longleftrightarrow>
      (\<exists>s. reduce initial_state (split_newline p) = Inr s)"
    by (auto simp: getLineMapFromPatchString_def split: sum.splits)
  have b: "(\<forall>m. getLineMapFromPatchString p \<noteq> Inr m) \<longleftrightarrow>
      getLineMapFromPatchString p = Inl TypeError"
    by (cases "getLineMapFromPatchString p") (auto intro: js_error.exhaust)
  have c: "getLineMapFromPatchString ''@@ malformed @@'' = Inl TypeError"
    by (simp add: getLineMapFromPatchString_def initial_state_def reducer_def is_digit_def)
  show ?thesis using a b c reduce_ok_iff [of initial_state "split_newline p"] by simp
qed

theorem parser_total_iff_witness:
  "(\<exists>m. getLineMapFromPatchString (''@@ -1 +7 @@'' @ [CHR 0x0A] @ ''+x'') = Inr m) \<and>
   getLineMapFromPatchString ''@@ malformed @@'' = Inl TypeError"
  using parser_total_iff [of "''@@ -1 +7 @@'' @ [CHR 0x0A] @ ''+x''"]
  by (simp add: is_digit_def)

section \<open>The header of the specification and the match of the code\<close>

lemma strip_prefix_Some: "strip_prefix p s = Some r \<longleftrightarrow> s = p @ r"
  by (induction p s rule: strip_prefix.induct) auto

lemma not_digit_plus: "\<not> is_digit (CHR ''+'')"
  by (simp add: is_digit_def)

lemma plus_notin_digits: "CHR ''+'' \<notin> set (takeWhile is_digit s)"
  using not_digit_plus by (auto dest: set_takeWhileD)

lemma spec_range_Some:
  assumes "spec_range s = Some (n, r)"
  shows "\<exists>pre. s = pre @ r \<and> CHR ''+'' \<notin> set pre \<and>
           takeWhile is_digit s \<noteq> [] \<and> n = to_number (takeWhile is_digit s)"
proof -
  let ?ds = "takeWhile is_digit s" and ?r = "dropWhile is_digit s"
  have s: "s = ?ds @ ?r" by simp
  from assms have ne: "?ds \<noteq> []" and n: "n = to_number ?ds"
    by (auto simp: spec_range_def Let_def split: if_splits list.splits)
  show ?thesis
  proof (cases ?r)
    case Nil
    with assms ne have "r = []" by (simp add: spec_range_def Let_def)
    with Nil s have "s = ?ds @ r" by metis
    with ne n plus_notin_digits [of s] show ?thesis by blast
  next
    case (Cons c r')
    show ?thesis
    proof (cases "c = CHR '',''")
      case True
      with assms ne Cons have r: "r = dropWhile is_digit r'"
        by (auto simp: spec_range_def Let_def split: if_splits)
      have "s = (?ds @ c # takeWhile is_digit r') @ r"
        using s Cons r by (metis append.assoc append_Cons takeWhile_dropWhile_id)
      moreover have "CHR ''+'' \<notin> set (?ds @ c # takeWhile is_digit r')"
        using True plus_notin_digits [of s] plus_notin_digits [of r'] by simp
      ultimately show ?thesis using ne n by blast
    next
      case False
      with assms ne Cons have "r = ?r"
        by (auto simp: spec_range_def Let_def split: if_splits)
      with s have "s = ?ds @ r" by metis
      with ne n plus_notin_digits [of s] show ?thesis by blast
    qed
  qed
qed

lemma match_plus_digits_skip:
  "CHR ''+'' \<notin> set pre \<Longrightarrow> match_plus_digits (pre @ cs) = match_plus_digits cs"
  by (induction pre) auto

lemma spec_new_start_code:
  assumes "spec_new_start l = Some n"
  shows "is_hunk_header l \<and> code_new_start l = Some n"
proof -
  from assms obtain r1 o1 r2 r3 r4 where
    l: "l = ''@@ -'' @ r1" and
    r1: "spec_range r1 = Some (o1, r2)" and
    r2: "r2 = '' +'' @ r3" and
    r3: "spec_range r3 = Some (n, r4)"
    by (auto simp: spec_new_start_def strip_prefix_Some split: option.splits prod.splits)
  from spec_range_Some [OF r1] obtain pre where
    pre: "r1 = pre @ r2" "CHR ''+'' \<notin> set pre" by blast
  from spec_range_Some [OF r3] have
    ds: "takeWhile is_digit r3 \<noteq> []" "n = to_number (takeWhile is_digit r3)" by auto
  have "l = (''@@ -'' @ pre @ '' '') @ CHR ''+'' # r3"
    using l pre r2 by simp
  moreover have "CHR ''+'' \<notin> set (''@@ -'' @ pre @ '' '')"
    using pre by simp
  ultimately have "match_plus_digits l = match_plus_digits (CHR ''+'' # r3)"
    using match_plus_digits_skip by metis
  with ds have "code_new_start l = Some n"
    by (simp add: code_new_start_def)
  moreover have "is_hunk_header l" using l by simp
  ultimately show ?thesis by simp
qed

lemma spec_header_is_hunk_header: "spec_header l \<Longrightarrow> is_hunk_header l"
  using spec_new_start_code [of l] by (auto simp: spec_header_def)

lemma is_addition_iff: "is_addition l \<longleftrightarrow> first_char l = Some (CHR ''+'')"
  by (cases l rule: is_hunk_header.cases) (auto simp: is_addition_def)

section \<open>The counters along the patch\<close>

lemma reduce_append:
  "reduce s (xs @ ys) = (case reduce s xs of Inl e \<Rightarrow> Inl e | Inr s' \<Rightarrow> reduce s' ys)"
  by (induction xs arbitrary: s) (auto split: sum.splits)

lemma reduce_snoc:
  "reduce s (xs @ [l]) = (case reduce s xs of Inl e \<Rightarrow> Inl e | Inr s' \<Rightarrow> reducer s' l)"
  by (simp add: reduce_append split: sum.splits)

lemma reducer_header:
  "is_hunk_header l \<Longrightarrow> reducer s l =
     (case code_new_start l of None \<Rightarrow> Inl TypeError
      | Some n \<Rightarrow> Inr (s\<lparr>fileLineIndex := n - 1\<rparr>))"
  by (simp add: reducer_def code_new_start_def split: option.splits)

lemma reducer_body:
  "\<not> is_hunk_header l \<Longrightarrow> reducer s l =
     Inr \<lparr>diffLineIndex = diffLineIndex s + 1,
          fileLineIndex = (if is_deletion l then fileLineIndex s else fileLineIndex s + 1),
          lineMap = (if is_addition l
                     then (lineMap s)(fileLineIndex s + 1 \<mapsto> diffLineIndex s + 1)
                     else lineMap s)\<rparr>"
  by (cases l rule: is_hunk_header.cases)
     (auto simp: reducer_def Let_def is_deletion_def is_addition_def)

lemma counters_after:
  "reduce initial_state pre = Inr s \<Longrightarrow>
     diffLineIndex s = diff_pos_after pre \<and> fileLineIndex s = file_line_after pre"
proof (induction pre arbitrary: s rule: rev_induct)
  case Nil
  then show ?case by (auto simp: initial_state_def diff_pos_after_def file_line_after_def)
next
  case (snoc l pre)
  from snoc.prems obtain s0 where s0: "reduce initial_state pre = Inr s0"
    and step: "reducer s0 l = Inr s"
    by (auto simp: reduce_snoc split: sum.splits)
  note ih = snoc.IH [OF s0]
  show ?case
  proof (cases "is_hunk_header l")
    case True
    with step ih show ?thesis
      by (auto simp: reducer_header diff_pos_after_def file_line_after_def split: option.splits)
  next
    case False
    with step ih show ?thesis
      by (auto simp: reducer_body diff_pos_after_def file_line_after_def)
  qed
qed

lemma reduce_prefix:
  assumes "reduce s0 ls = Inr final" and "i < length ls"
  shows "\<exists>s s'. reduce s0 (take i ls) = Inr s \<and> reducer s (ls ! i) = Inr s' \<and>
           reduce s0 (take (Suc i) ls) = Inr s'"
proof -
  have "ls = take (Suc i) ls @ drop (Suc i) ls" by simp
  with assms(1) obtain s' where s': "reduce s0 (take (Suc i) ls) = Inr s'"
    by (metis reduce_append sum.case_eq_if sum.collapse(2) sum.disc(1) sum.exhaust_sel)
  with assms(2) show ?thesis
    by (auto simp: take_Suc_conv_app_nth reduce_snoc split: sum.splits)
qed

text \<open>
  Claim C3. Along a patch that parses, the diff position before line \<open>i\<close> is the number
  of non-header lines before it, so it is never reset: a header leaves it unchanged and
  every other line adds exactly 1. A header sets the file line to the number after its
  first \<open>+\<close> minus 1, which is new-start minus 1 on a header of the specified shape;
  any other line adds 1 to the file line unless it begins with \<open>-\<close>, which leaves it
  unchanged.
\<close>

theorem counters_across_hunks:
  assumes "reduce initial_state (split_newline p) = Inr final"
    and "i < length (split_newline p)"
  shows "\<exists>s s'. reduce initial_state (take i (split_newline p)) = Inr s \<and>
           reduce initial_state (take (Suc i) (split_newline p)) = Inr s' \<and>
           diffLineIndex s = int (length (filter (\<lambda>l. \<not> is_hunk_header l) (take i (split_newline p)))) \<and>
           (if is_hunk_header (split_newline p ! i)
            then diffLineIndex s' = diffLineIndex s \<and>
                 (\<exists>m. match_plus_digits (split_newline p ! i) = Some m \<and>
                      fileLineIndex s' = to_number (tl m) - 1) \<and>
                 (\<forall>n. spec_new_start (split_newline p ! i) = Some n \<longrightarrow> fileLineIndex s' = n - 1)
            else diffLineIndex s' = diffLineIndex s + 1 \<and>
                 fileLineIndex s' =
                   (if is_deletion (split_newline p ! i) then fileLineIndex s
                    else fileLineIndex s + 1))"
proof -
  let ?l = "split_newline p ! i"
  from reduce_prefix [OF assms] obtain s s' where
    s: "reduce initial_state (take i (split_newline p)) = Inr s" and
    step: "reducer s ?l = Inr s'" and
    s': "reduce initial_state (take (Suc i) (split_newline p)) = Inr s'" by blast
  from counters_after [OF s] have d: "diffLineIndex s =
      int (length (filter (\<lambda>l. \<not> is_hunk_header l) (take i (split_newline p))))"
    by (simp add: diff_pos_after_def)
  have "if is_hunk_header ?l
        then diffLineIndex s' = diffLineIndex s \<and>
             (\<exists>m. match_plus_digits ?l = Some m \<and> fileLineIndex s' = to_number (tl m) - 1) \<and>
             (\<forall>n. spec_new_start ?l = Some n \<longrightarrow> fileLineIndex s' = n - 1)
        else diffLineIndex s' = diffLineIndex s + 1 \<and>
             fileLineIndex s' = (if is_deletion ?l then fileLineIndex s else fileLineIndex s + 1)"
  proof (cases "is_hunk_header ?l")
    case True
    with step obtain m where m: "match_plus_digits ?l = Some m"
      and f: "s' = s\<lparr>fileLineIndex := to_number (tl m) - 1\<rparr>"
      by (auto simp: reducer_def split: option.splits)
    have "\<forall>n. spec_new_start ?l = Some n \<longrightarrow> fileLineIndex s' = n - 1"
      using m f by (auto dest!: spec_new_start_code simp: code_new_start_def)
    with True m f show ?thesis by simp
  next
    case False
    with step show ?thesis by (auto simp: reducer_body)
  qed
  with s s' d show ?thesis by blast
qed

lemma scenario2_lines:
  "split_newline (''@@ -1,2 +1,3 @@'' @ [CHR 0x0A] @ '' a'' @ [CHR 0x0A] @ ''+b'' @ [CHR 0x0A] @
      '' c'' @ [CHR 0x0A] @ ''@@ -10,2 +12,3 @@'' @ [CHR 0x0A] @ ''+d'')
   = [''@@ -1,2 +1,3 @@'', '' a'', ''+b'', '' c'', ''@@ -10,2 +12,3 @@'', ''+d'']"
  by simp

theorem counters_across_hunks_witness:
  "\<exists>s s'. reduce initial_state [''@@ -1,2 +1,3 @@'', '' a'', ''+b'', '' c''] = Inr s \<and>
      reduce initial_state [''@@ -1,2 +1,3 @@'', '' a'', ''+b'', '' c'', ''@@ -10,2 +12,3 @@''] = Inr s' \<and>
      diffLineIndex s = 3 \<and> diffLineIndex s' = 3 \<and> fileLineIndex s' = 11"
proof -
  let ?p = "''@@ -1,2 +1,3 @@'' @ [CHR 0x0A] @ '' a'' @ [CHR 0x0A] @ ''+b'' @ [CHR 0x0A] @
      '' c'' @ [CHR 0x0A] @ ''@@ -10,2 +12,3 @@'' @ [CHR 0x0A] @ ''+d''"
  have r: "reduce initial_state (split_newline ?p) =
      Inr \<lparr>diffLineIndex = 4, fileLineIndex = 12, lineMap = [2 \<mapsto> 2, 12 \<mapsto> 4]\<rparr>"
    unfolding scenario2_lines
    by (simp add: initial_state_def reducer_def to_number_def digit_value_def is_digit_def)
  have i: "4 < length (split_newline ?p)" unfolding scenario2_lines by simp
  have n: "spec_new_start ''@@ -10,2 +12,3 @@'' = Some 12"
    by (simp add: spec_new_start_def spec_range_def to_number_def digit_value_def is_digit_def)
  from counters_across_hunks [OF r i] n show ?thesis
    unfolding scenario2_lines by (auto simp: numeral_eq_Suc)
qed

section \<open>The recorded entries\<close>

lemma entry_at_append: "i < length pre \<Longrightarrow> entry_at (pre @ xs) i = entry_at pre i"
  by (simp add: entry_at_def nth_append)

lemma entries_recorded_snoc:
  "entries_recorded (pre @ [l]) = entries_recorded pre @ entry_at (pre @ [l]) (length pre)"
proof -
  have eq: "map (entry_at (pre @ [l])) [0..<length pre] = map (entry_at pre) [0..<length pre]"
    by (rule map_cong) (simp_all add: entry_at_append)
  show ?thesis
    unfolding entries_recorded_def by (simp add: eq)
qed

lemma entry_at_last:
  "entry_at (pre @ [l]) (length pre) =
     (if is_addition l
      then (case reduce initial_state (pre @ [l]) of
              Inl e \<Rightarrow> [] | Inr s \<Rightarrow> [(fileLineIndex s, diffLineIndex s)])
      else [])"
  by (simp add: entry_at_def)

lemma recorded_after:
  "reduce initial_state pre = Inr s \<Longrightarrow>
     lineMap s = map_of (rev (entries_recorded pre)) \<and>
     (\<forall>v\<in>set (map snd (entries_recorded pre)). 1 \<le> v \<and> v \<le> diffLineIndex s) \<and>
     sorted_wrt (<) (map snd (entries_recorded pre)) \<and>
     0 \<le> diffLineIndex s"
proof (induction pre arbitrary: s rule: rev_induct)
  case Nil
  then show ?case by (auto simp: initial_state_def entries_recorded_def)
next
  case (snoc l pre)
  from snoc.prems obtain s0 where s0: "reduce initial_state pre = Inr s0"
    and step: "reducer s0 l = Inr s"
    by (auto simp: reduce_snoc split: sum.splits)
  note ih = snoc.IH [OF s0]
  show ?case
  proof (cases "is_hunk_header l")
    case True
    then have "\<not> is_addition l" by (simp add: is_addition_def)
    with True step ih show ?thesis
      by (auto simp: reducer_header entries_recorded_snoc entry_at_last split: option.splits)
  next
    case False
    show ?thesis
    proof (cases "is_addition l")
      case True
      with False step have s: "s = \<lparr>diffLineIndex = diffLineIndex s0 + 1,
          fileLineIndex = (if is_deletion l then fileLineIndex s0 else fileLineIndex s0 + 1),
          lineMap = (lineMap s0)(fileLineIndex s0 + 1 \<mapsto> diffLineIndex s0 + 1)\<rparr>"
        by (simp add: reducer_body)
      from True have nd: "\<not> is_deletion l"
        by (auto simp: is_addition_def is_deletion_def)
      have e: "entries_recorded (pre @ [l]) =
          entries_recorded pre @ [(fileLineIndex s0 + 1, diffLineIndex s0 + 1)]"
        using True snoc.prems s nd by (simp add: entries_recorded_snoc entry_at_last)
      show ?thesis using ih unfolding e
        by (auto simp: s sorted_wrt_append)
    next
      case na: False
      with False step ih show ?thesis
        by (auto simp: reducer_body entries_recorded_snoc entry_at_last)
    qed
  qed
qed

lemma sendSingleComment_empty_iff:
  "(\<forall>k v. m k = Some v \<longrightarrow> v \<noteq> 0) \<Longrightarrow>
     sendSingleComment e f m g sha n = [] \<longleftrightarrow> m (line g) = None"
  by (auto simp: sendSingleComment_def split: option.splits)

text \<open>
  Claim C10. Every value of a line map the parser returns is at least 1. The map is
  what the recorded entries give when a later entry for the same key replaces an
  earlier one, and the recorded values are strictly increasing in the order they are
  recorded. Hence \<^verbatim>\<open>sendSingleComment\<close> sends nothing exactly when the line is not a key
  of the map.
\<close>

theorem line_map_values_positive:
  assumes "getLineMapFromPatchString p = Inr m"
  shows "(\<forall>k v. m k = Some v \<longrightarrow> 1 \<le> v) \<and>
         m = map_of (rev (entries_recorded (split_newline p))) \<and>
         sorted_wrt (<) (map snd (entries_recorded (split_newline p))) \<and>
         (\<forall>e f g sha n. sendSingleComment e f m g sha n = [] \<longleftrightarrow> m (line g) = None)"
proof -
  from assms obtain s where s: "reduce initial_state (split_newline p) = Inr s"
    and m: "m = lineMap s"
    by (auto simp: getLineMapFromPatchString_def split: sum.splits)
  note r = recorded_after [OF s]
  have pos: "\<forall>k v. m k = Some v \<longrightarrow> 1 \<le> v"
  proof (intro allI impI)
    fix k v assume "m k = Some v"
    with r m have "(k, v) \<in> set (rev (entries_recorded (split_newline p)))"
      by (auto dest: map_of_SomeD)
    then have "v \<in> set (map snd (entries_recorded (split_newline p)))" by force
    with r show "1 \<le> v" by blast
  qed
  then have nz: "\<forall>k v. m k = Some v \<longrightarrow> v \<noteq> 0" by fastforce
  show ?thesis using pos r m sendSingleComment_empty_iff [OF nz] by blast
qed

theorem line_map_values_positive_witness:
  "getLineMapFromPatchString
     (''@@ -1,2 +1,3 @@'' @ [CHR 0x0A] @ '' a'' @ [CHR 0x0A] @ ''+b'' @ [CHR 0x0A] @
      '' c'' @ [CHR 0x0A] @ ''@@ -10,2 +12,3 @@'' @ [CHR 0x0A] @ ''+d'') = Inr [2 \<mapsto> 2, 12 \<mapsto> 4] \<and>
   entries_recorded
      [''@@ -1,2 +1,3 @@'', '' a'', ''+b'', '' c'', ''@@ -10,2 +12,3 @@'', ''+d'']
     = [(2, 2), (12, 4)] \<and>
   [2 \<mapsto> 2, 12 \<mapsto> 4] = map_of (rev (entries_recorded
      [''@@ -1,2 +1,3 @@'', '' a'', ''+b'', '' c'', ''@@ -10,2 +12,3 @@'', ''+d''])) \<and>
   sorted_wrt (<) (map snd (entries_recorded
      [''@@ -1,2 +1,3 @@'', '' a'', ''+b'', '' c'', ''@@ -10,2 +12,3 @@'', ''+d'']))"
proof -
  let ?p = "''@@ -1,2 +1,3 @@'' @ [CHR 0x0A] @ '' a'' @ [CHR 0x0A] @ ''+b'' @ [CHR 0x0A] @
      '' c'' @ [CHR 0x0A] @ ''@@ -10,2 +12,3 @@'' @ [CHR 0x0A] @ ''+d''"
  have r: "getLineMapFromPatchString ?p = Inr [2 \<mapsto> 2, 12 \<mapsto> 4]"
    by (simp add: getLineMapFromPatchString_def initial_state_def reducer_def to_number_def
        digit_value_def is_digit_def)
  have e: "entries_recorded
      [''@@ -1,2 +1,3 @@'', '' a'', ''+b'', '' c'', ''@@ -10,2 +12,3 @@'', ''+d'']
     = [(2, 2), (12, 4)]"
    by (simp add: entries_recorded_def entry_at_def is_addition_def initial_state_def
        reducer_def to_number_def digit_value_def is_digit_def
        upt_rec [of 0] upt_rec [of 1] upt_rec [of 2] upt_rec [of 3] upt_rec [of 4]
        upt_rec [of 5] upt_rec [of 6] numeral_eq_Suc)
  from line_map_values_positive [OF r] r e show ?thesis
    unfolding scenario2_lines by blast
qed

section \<open>The keys of the line map\<close>

lemma entry_at_value:
  assumes "reduce initial_state ls = Inr final" and "i < length ls" and "is_addition (ls ! i)"
  shows "entry_at ls i = [(file_line_after (take i ls) + 1, diff_pos_after (take i ls) + 1)]"
proof -
  from reduce_prefix [OF assms(1,2)] obtain s s' where
    s: "reduce initial_state (take i ls) = Inr s" and
    step: "reducer s (ls ! i) = Inr s'" and
    s': "reduce initial_state (take (Suc i) ls) = Inr s'" by blast
  from assms(3) have nh: "\<not> is_hunk_header (ls ! i)" and nd: "\<not> is_deletion (ls ! i)"
    by (auto simp: is_addition_def is_deletion_def)
  from step nh nd have "fileLineIndex s' = fileLineIndex s + 1"
    "diffLineIndex s' = diffLineIndex s + 1"
    by (auto simp: reducer_body)
  with counters_after [OF s] assms(3) s' show ?thesis
    by (simp add: entry_at_def)
qed

lemma spec_line_rev:
  assumes "\<forall>l\<in>set rs. is_hunk_header l \<longrightarrow> spec_header l" and "\<exists>l\<in>set rs. is_hunk_header l"
    and "\<forall>l\<in>set rs. \<not> is_marker l"
  shows "\<exists>h rest n. dropWhile (\<lambda>l. \<not> spec_header l) rs = h # rest \<and> spec_new_start h = Some n \<and>
           file_line_rev rs + 1 =
             n + int (length (filter new_file_side (takeWhile (\<lambda>l. \<not> spec_header l) rs)))"
  using assms
proof (induction rs)
  case Nil
  then show ?case by simp
next
  case (Cons l rs)
  show ?case
  proof (cases "is_hunk_header l")
    case True
    with Cons.prems have "spec_header l" by simp
    then obtain n where n: "spec_new_start l = Some n" by (auto simp: spec_header_def)
    with spec_new_start_code [OF n] True \<open>spec_header l\<close> show ?thesis by simp
  next
    case False
    then have ns: "\<not> spec_header l" using spec_header_is_hunk_header by blast
    from Cons.prems have nm: "new_file_side l \<longleftrightarrow> \<not> is_deletion l"
      by (simp add: new_file_side_def)
    from False Cons.prems have "\<exists>l\<in>set rs. is_hunk_header l" by auto
    with Cons.IH Cons.prems obtain h rest n where
      "dropWhile (\<lambda>l. \<not> spec_header l) rs = h # rest" "spec_new_start h = Some n"
      "file_line_rev rs + 1 =
         n + int (length (filter new_file_side (takeWhile (\<lambda>l. \<not> spec_header l) rs)))"
      by auto
    with False ns nm show ?thesis by simp
  qed
qed

lemma spec_new_file_line_eq:
  assumes "unified_diff ls" and "\<forall>l\<in>set ls. \<not> is_marker l"
    and "i < length ls" and "is_addition (ls ! i)"
  shows "spec_new_file_line ls i = Some (file_line_after (take i ls) + 1)"
proof -
  from assms(1) obtain l0 ls' where ls: "ls = l0 # ls'" and h0: "spec_header l0"
    and wf: "\<forall>l\<in>set ls. is_hunk_header l \<longrightarrow> spec_header l"
    by (auto simp: unified_diff_def split: list.splits)
  have "i \<noteq> 0"
  proof
    assume "i = 0"
    with assms(4) ls have "\<not> is_hunk_header l0" by (simp add: is_addition_def)
    with h0 spec_header_is_hunk_header show False by blast
  qed
  then have "l0 \<in> set (take i ls)" using ls by (cases i) auto
  then have ex: "\<exists>l\<in>set (rev (take i ls)). is_hunk_header l"
    using h0 spec_header_is_hunk_header by auto
  have wf': "\<forall>l\<in>set (rev (take i ls)). is_hunk_header l \<longrightarrow> spec_header l"
    using wf by (auto dest: in_set_takeD)
  have nm: "\<forall>l\<in>set (rev (take i ls)). \<not> is_marker l"
    using assms(2) by (auto dest: in_set_takeD)
  from spec_line_rev [OF wf' ex nm] show ?thesis
    by (auto simp: spec_new_file_line_def hunk_header_of_def hunk_lines_def file_line_after_def
        rev_filter [symmetric])
qed

lemma unified_diff_reduce:
  assumes "unified_diff ls"
  shows "\<exists>s. reduce initial_state ls = Inr s"
proof -
  have "\<forall>l\<in>set ls. is_hunk_header l \<longrightarrow> contains_plus_digit l"
  proof (intro ballI impI)
    fix l assume "l \<in> set ls" "is_hunk_header l"
    with assms have "spec_header l" by (auto simp: unified_diff_def)
    then obtain n where "spec_new_start l = Some n" by (auto simp: spec_header_def)
    from spec_new_start_code [OF this] have "match_plus_digits l \<noteq> None"
      by (auto simp: code_new_start_def)
    then show "contains_plus_digit l" using match_plus_digits_iff [of l] by blast
  qed
  then show ?thesis by (simp add: reduce_ok_iff)
qed

lemma recorded_keys:
  assumes "unified_diff ls" and "\<forall>l\<in>set ls. \<not> is_marker l"
    and "reduce initial_state ls = Inr final"
  shows "fst ` set (entries_recorded ls) = spec_addition_line_numbers ls"
proof -
  have "map fst (entries_recorded ls) =
      concat (map (\<lambda>i. if is_addition (ls ! i)
                        then (case spec_new_file_line ls i of None \<Rightarrow> [] | Some n \<Rightarrow> [n])
                        else [])
                  [0..<length ls])"
    unfolding entries_recorded_def map_concat map_map
  proof (rule arg_cong [where f = concat], rule map_cong [OF refl])
    fix i assume "i \<in> set [0..<length ls]"
    then have i: "i < length ls" by simp
    show "(map fst \<circ> entry_at ls) i =
        (if is_addition (ls ! i)
         then (case spec_new_file_line ls i of None \<Rightarrow> [] | Some n \<Rightarrow> [n]) else [])"
    proof (cases "is_addition (ls ! i)")
      case True
      with entry_at_value [OF assms(3) i] spec_new_file_line_eq [OF assms(1,2) i]
      show ?thesis by simp
    next
      case False
      then show ?thesis by (simp add: entry_at_def)
    qed
  qed
  then have "set (map fst (entries_recorded ls)) = spec_addition_line_numbers ls"
    by (simp only: spec_addition_line_numbers_def)
  then show ?thesis by simp
qed

lemma non_addition_keeps_map:
  assumes "reduce initial_state ls = Inr final" and "i < length ls" and "\<not> is_addition (ls ! i)"
  shows "\<exists>s s'. reduce initial_state (take i ls) = Inr s \<and>
           reduce initial_state (take (Suc i) ls) = Inr s' \<and> lineMap s' = lineMap s"
proof -
  from reduce_prefix [OF assms(1,2)] obtain s s' where
    s: "reduce initial_state (take i ls) = Inr s" and
    step: "reducer s (ls ! i) = Inr s'" and
    s': "reduce initial_state (take (Suc i) ls) = Inr s'" by blast
  have "lineMap s' = lineMap s"
  proof (cases "is_hunk_header (ls ! i)")
    case True
    with step show ?thesis by (auto simp: reducer_header split: option.splits)
  next
    case False
    with step assms(3) show ?thesis by (auto simp: reducer_body)
  qed
  with s s' show ?thesis by blast
qed

text \<open>
  For a patch that begins with a hunk header, whose lines beginning with \<open>@@\<close> are
  headers of the specified shape and which has no marker line, the parser returns a
  line map whose keys are exactly the new-file line numbers of the addition lines, and
  a line that is not an addition leaves the map as it was.
\<close>

lemma line_map_keys_without_markers:
  assumes "unified_diff (split_newline p)" and "\<forall>l\<in>set (split_newline p). \<not> is_marker l"
  shows "\<exists>m. getLineMapFromPatchString p = Inr m \<and>
           dom m = spec_addition_line_numbers (split_newline p) \<and>
           (\<forall>i<length (split_newline p). \<not> is_addition (split_newline p ! i) \<longrightarrow>
              (\<exists>s s'. reduce initial_state (take i (split_newline p)) = Inr s \<and>
                 reduce initial_state (take (Suc i) (split_newline p)) = Inr s' \<and>
                 lineMap s' = lineMap s))"
proof -
  from unified_diff_reduce [OF assms(1)] obtain s where
    s: "reduce initial_state (split_newline p) = Inr s" by blast
  then have m: "getLineMapFromPatchString p = Inr (lineMap s)"
    by (simp add: getLineMapFromPatchString_def)
  have "dom (lineMap s) = fst ` set (entries_recorded (split_newline p))"
    using recorded_after [OF s] by (simp add: dom_map_of_conv_image_fst)
  with recorded_keys [OF assms s]
  have "dom (lineMap s) = spec_addition_line_numbers (split_newline p)" by simp
  with m non_addition_keeps_map [OF s] show ?thesis by blast
qed

lemma marker_patch_lines:
  "split_newline (''@@ -1,3 +1,3 @@'' @ [CHR 0x0A] @ '' a'' @ [CHR 0x0A] @ '' b'' @ [CHR 0x0A] @
      ''-c'' @ [CHR 0x0A] @ [CHR 0x5C] @ '' No newline at end of file'' @ [CHR 0x0A] @
      ''+d'' @ [CHR 0x0A] @ [CHR 0x5C] @ '' No newline at end of file'')
   = [''@@ -1,3 +1,3 @@'', '' a'', '' b'', ''-c'', CHR 0x5C # '' No newline at end of file'',
      ''+d'', CHR 0x5C # '' No newline at end of file'']"
  by simp

lemma marker_patch_unified_diff:
  "unified_diff [''@@ -1,3 +1,3 @@'', '' a'', '' b'', ''-c'',
      CHR 0x5C # '' No newline at end of file'', ''+d'',
      CHR 0x5C # '' No newline at end of file'']"
  by (simp add: unified_diff_def spec_header_def spec_new_start_def spec_range_def
      to_number_def digit_value_def is_digit_def)

text \<open>
  Claim C1. The patch that replaces the last line \<open>c\<close> of the three-line file \<open>a\<close>, \<open>b\<close>,
  \<open>c\<close> by \<open>d\<close>, where neither file ends with a line feed, carries the marker
  \<^verbatim>\<open>No newline at end of file\<close> after the deletion and after the addition. Its one
  addition is line 3 of the new file. The parser counts the marker as a line of the
  file and returns the line map \<open>{4: 5}\<close>: its key is not the new-file line number of
  the addition, and line 3 is not a key.
\<close>

theorem marker_line_shifts_key:
  "spec_addition_line_numbers (split_newline
     (''@@ -1,3 +1,3 @@'' @ [CHR 0x0A] @ '' a'' @ [CHR 0x0A] @ '' b'' @ [CHR 0x0A] @
      ''-c'' @ [CHR 0x0A] @ [CHR 0x5C] @ '' No newline at end of file'' @ [CHR 0x0A] @
      ''+d'' @ [CHR 0x0A] @ [CHR 0x5C] @ '' No newline at end of file'')) = {3} \<and>
   getLineMapFromPatchString
     (''@@ -1,3 +1,3 @@'' @ [CHR 0x0A] @ '' a'' @ [CHR 0x0A] @ '' b'' @ [CHR 0x0A] @
      ''-c'' @ [CHR 0x0A] @ [CHR 0x5C] @ '' No newline at end of file'' @ [CHR 0x0A] @
      ''+d'' @ [CHR 0x0A] @ [CHR 0x5C] @ '' No newline at end of file'') = Inr [4 \<mapsto> 5]"
proof -
  let ?ls = "[''@@ -1,3 +1,3 @@'', '' a'', '' b'', ''-c'',
      CHR 0x5C # '' No newline at end of file'', ''+d'',
      CHR 0x5C # '' No newline at end of file'']"
  have a: "spec_addition_line_numbers ?ls = {3}"
    by (simp add: spec_addition_line_numbers_def is_addition_def spec_new_file_line_def
        hunk_header_of_def hunk_lines_def spec_header_def is_deletion_def is_marker_def
        new_file_side_def
        upt_rec [of 0] upt_rec [of 1] upt_rec [of 2] upt_rec [of 3] upt_rec [of 4]
        upt_rec [of 5] upt_rec [of 6] upt_rec [of 7]
        spec_new_start_def spec_range_def to_number_def digit_value_def is_digit_def
        numeral_eq_Suc)
  have m: "getLineMapFromPatchString
     (''@@ -1,3 +1,3 @@'' @ [CHR 0x0A] @ '' a'' @ [CHR 0x0A] @ '' b'' @ [CHR 0x0A] @
      ''-c'' @ [CHR 0x0A] @ [CHR 0x5C] @ '' No newline at end of file'' @ [CHR 0x0A] @
      ''+d'' @ [CHR 0x0A] @ [CHR 0x5C] @ '' No newline at end of file'') = Inr [4 \<mapsto> 5]"
    by (simp add: getLineMapFromPatchString_def initial_state_def reducer_def to_number_def
        digit_value_def is_digit_def)
  from a m show ?thesis unfolding marker_patch_lines by simp
qed

section \<open>Emission of the comments\<close>

text \<open>
  Claim C5. With a line map whose positions are 1-based, a group whose line is not a
  key sends no comment, and a group whose line is a key sends exactly one, with the
  body of the group and the position the map gives; \<^verbatim>\<open>sendComments\<close> does this for each
  group of the grouping, in order. The model has no error result: nothing here can
  throw.
\<close>

theorem emission_per_group:
  assumes "\<forall>k v. lmap k = Some v \<longrightarrow> 1 \<le> v"
  shows "(lmap (line g) = None \<longrightarrow> sendSingleComment e f lmap g sha n = []) \<and>
         (\<forall>d. lmap (line g) = Some d \<longrightarrow>
            sendSingleComment e f lmap g sha n =
              [\<lparr>user = REPOSITORY_OWNER e, repo = REPOSITORY_NAME e, number = n,
                body = message g, commit_id = sha, path = f, position = d\<rparr>]) \<and>
         sendComments e f lmap errs sha n =
           concat (map (\<lambda>(key, g). case lmap (line g) of
                          None \<Rightarrow> []
                        | Some d \<Rightarrow>
                            [\<lparr>user = REPOSITORY_OWNER e, repo = REPOSITORY_NAME e, number = n,
                              body = message g, commit_id = sha, path = f, position = d\<rparr>])
                       (groupLintErrorsByLine errs))"
proof -
  have one: "sendSingleComment e f lmap g sha n =
      (case lmap (line g) of
         None \<Rightarrow> []
       | Some d \<Rightarrow> [\<lparr>user = REPOSITORY_OWNER e, repo = REPOSITORY_NAME e, number = n,
                      body = message g, commit_id = sha, path = f, position = d\<rparr>])" for g
    using assms by (fastforce simp: sendSingleComment_def split: option.splits)
  show ?thesis
    by (simp add: one sendComments_def split: option.splits)
qed

theorem emission_per_group_witness:
  "sendComments \<lparr>REPOSITORY_OWNER = ''o'', REPOSITORY_NAME = ''r''\<rparr> ''a.js'' [5 \<mapsto> 2]
     [\<lparr>line = 5, message = ''m1'', ruleId = None\<rparr>,
      \<lparr>line = 5, message = ''m2'', ruleId = None\<rparr>,
      \<lparr>line = 8, message = ''m3'', ruleId = None\<rparr>] ''c0ffee'' 7
   = [\<lparr>user = ''o'', repo = ''r'', number = 7,
       body = [CHR 0x0A] @ ''**Eslint**: m1'' @ [CHR 0x0A] @ ''**Eslint**: m2'',
       commit_id = ''c0ffee'', path = ''a.js'', position = 2\<rparr>]"
proof -
  let ?errs = "[\<lparr>line = 5, message = ''m1'', ruleId = None\<rparr>,
      \<lparr>line = 5, message = ''m2'', ruleId = None\<rparr>,
      \<lparr>line = 8, message = ''m3'', ruleId = None\<rparr>]"
  let ?e = "\<lparr>REPOSITORY_OWNER = ''o'', REPOSITORY_NAME = ''r''\<rparr>"
  have h: "\<forall>k v. [5 \<mapsto> (2::int)] (k::int) = Some v \<longrightarrow> 1 \<le> v" by simp
  have g: "groupLintErrorsByLine ?errs
    = [(5, \<lparr>line = 5, message = [CHR 0x0A] @ ''**Eslint**: m1'' @ [CHR 0x0A] @ ''**Eslint**: m2''\<rparr>),
       (8, \<lparr>line = 8, message = [CHR 0x0A] @ ''**Eslint**: m3''\<rparr>)]"
    by (simp add: groupLintErrorsByLine_def group_callback_def template_def)
  have "sendComments ?e ''a.js'' [5 \<mapsto> 2] ?errs ''c0ffee'' 7
    = concat (map (\<lambda>(key, g). case [5 \<mapsto> 2] (line g) of
                          None \<Rightarrow> []
                        | Some d \<Rightarrow>
                            [\<lparr>user = REPOSITORY_OWNER ?e, repo = REPOSITORY_NAME ?e, number = 7,
                              body = message g, commit_id = ''c0ffee'', path = ''a.js'',
                              position = d\<rparr>])
       (groupLintErrorsByLine ?errs))"
    by (rule emission_per_group [OF h, THEN conjunct2, THEN conjunct2])
  also have "\<dots> = [\<lparr>user = ''o'', repo = ''r'', number = 7,
       body = [CHR 0x0A] @ ''**Eslint**: m1'' @ [CHR 0x0A] @ ''**Eslint**: m2'',
       commit_id = ''c0ffee'', path = ''a.js'', position = 2\<rparr>]"
    unfolding g by simp
  finally show ?thesis .
qed

section \<open>The webhook filter\<close>

lemma app_post_treats_iff:
  "TreatPayload p \<in> set (app_post p) \<longleftrightarrow> pull_request p \<noteq> None \<and> action p = Some ''opened''"
  by (simp add: app_post_def)

lemma app_post_part_001_153_treats_iff:
  "TreatPayload p \<in> set (app_post_part_001_153 p) \<longleftrightarrow>
     pull_request p \<noteq> None \<and> (action p = Some ''opened'' \<or> action p = Some ''reopened'')"
  by (simp add: app_post_part_001_153_def)

lemma app_post_part_001_381_treats_iff:
  "TreatPayload p \<in> set (app_post_part_001_381 p) \<longleftrightarrow> pull_request p \<noteq> None"
  by (simp add: app_post_part_001_381_def)

lemma response_always_ended:
  "last (app_post p) = ResponseEnd \<and> last (app_post_part_001_153 p) = ResponseEnd \<and>
   last (app_post_part_001_381 p) = ResponseEnd"
  by (simp add: app_post_def app_post_part_001_153_def app_post_part_001_381_def)

text \<open>
  Claim C4. The handler of \<^verbatim>\<open>server.js\<close> acknowledges a reopened pull request without
  processing it: \<^verbatim>\<open>treatPayload\<close> is not among its effects. On the same request the
  handler at line 153 of \<^verbatim>\<open>unnamed/part_001\<close> calls \<^verbatim>\<open>treatPayload\<close>, and the handler at
  line 381 calls it even for a closed pull request.
\<close>

theorem reopened_not_treated:
  "app_post \<lparr>action = Some ''reopened'', pr_number = Some 1,
      pull_request = Some \<lparr>head_sha = ''c0ffee'', head_ref = ''topic''\<rparr>\<rparr>
   = [ConsoleLog, ResponseEnd] \<and>
   app_post_part_001_153 \<lparr>action = Some ''reopened'', pr_number = Some 1,
      pull_request = Some \<lparr>head_sha = ''c0ffee'', head_ref = ''topic''\<rparr>\<rparr>
   = [ConsoleLog,
      TreatPayload \<lparr>action = Some ''reopened'', pr_number = Some 1,
        pull_request = Some \<lparr>head_sha = ''c0ffee'', head_ref = ''topic''\<rparr>\<rparr>,
      ResponseEnd] \<and>
   app_post_part_001_381 \<lparr>action = Some ''closed'', pr_number = Some 1,
      pull_request = Some \<lparr>head_sha = ''c0ffee'', head_ref = ''topic''\<rparr>\<rparr>
   = [TreatPayload \<lparr>action = Some ''closed'', pr_number = Some 1,
        pull_request = Some \<lparr>head_sha = ''c0ffee'', head_ref = ''topic''\<rparr>\<rparr>,
      ConsoleLog, ResponseEnd]"
  by (simp add: app_post_def app_post_part_001_153_def app_post_part_001_381_def)

section \<open>The grouping writes fresh objects only\<close>

lemma update_fresh: "map_of al k = None \<Longrightarrow> AList.update k v al = al @ [(k, v)]"
  by (induction al) (auto split: if_splits)

lemma map_entry_fresh: "map_of al k = None \<Longrightarrow> AList.map_entry k f (al @ [(k, v)]) = al @ [(k, f v)]"
  by (induction al) (auto split: if_splits)

lemma deref_update:
  "deref (h[a := v]) b = (if b = a \<and> a < length h then Some v else deref h b)"
  by (auto simp: deref_def)

lemma deref_append: "deref (h @ [v]) b = (if b = length h then Some v else deref h b)"
  by (auto simp: deref_def nth_append)

lemma deref_take: "deref (take n h) f = Some x \<longleftrightarrow> f < n \<and> deref h f = Some x"
  by (auto simp: deref_def)

lemma deref_bound: "deref h a = Some x \<Longrightarrow> a < length h"
  by (auto simp: deref_def split: if_splits)

lemma group_at_keys: "list_all2 (group_at h) props groups \<Longrightarrow> map fst props = map fst groups"
  by (induction props groups rule: list_all2_induct) (auto simp: group_at_def)

lemma group_at_map_of_None:
  assumes "list_all2 (group_at h) props groups"
  shows "map_of props k = None \<longleftrightarrow> map_of groups k = None"
proof -
  have "map_of props k = None \<longleftrightarrow> k \<notin> set (map fst props)"
    by (simp add: map_of_eq_None_iff)
  also have "\<dots> \<longleftrightarrow> k \<notin> set (map fst groups)"
    by (simp only: group_at_keys [OF assms])
  also have "\<dots> \<longleftrightarrow> map_of groups k = None"
    by (simp add: map_of_eq_None_iff)
  finally show ?thesis .
qed

lemma group_at_mono:
  "list_all2 (group_at h) props groups \<Longrightarrow>
   (\<forall>p\<in>set props. deref h' (snd p) = deref h (snd p)) \<Longrightarrow>
   list_all2 (group_at h') props groups"
  by (induction props groups rule: list_all2_induct) (auto simp: group_at_def)

lemma group_at_bound:
  "list_all2 (group_at h) props groups \<Longrightarrow> p \<in> set props \<Longrightarrow> snd p < length h"
  by (induction props groups rule: list_all2_induct) (auto simp: group_at_def dest: deref_bound)

lemma group_at_update:
  assumes "list_all2 (group_at h) props groups" and "distinct (map snd props)"
    and "map_of props key = Some a"
  shows "\<exists>g. deref h a = Some (Group g) \<and>
           list_all2 (group_at (h[a := Group (u g)])) props (AList.map_entry key u groups)"
  using assms
proof (induction props groups rule: list_all2_induct)
  case Nil
  then show ?case by simp
next
  case (Cons p ps q qs)
  from Cons.hyps have pq: "fst p = fst q" "deref h (snd p) = Some (Group (snd q))"
    by (auto simp: group_at_def)
  from Cons.prems have dist: "snd p \<notin> snd ` set ps" "distinct (map snd ps)" by auto
  show ?case
  proof (cases "fst p = key")
    case True
    with Cons.prems have a: "a = snd p" by (cases p) auto
    have "snd p' \<noteq> a" if "p' \<in> set ps" for p'
      using that dist(1) a by (metis imageI)
    then have "\<forall>p'\<in>set ps. deref (h[a := Group (u (snd q))]) (snd p') = deref h (snd p')"
      by (simp add: deref_update)
    with Cons.hyps have "list_all2 (group_at (h[a := Group (u (snd q))])) ps qs"
      by (blast intro: group_at_mono)
    moreover have "group_at (h[a := Group (u (snd q))]) p (key, u (snd q))"
      using True a pq deref_bound [OF pq(2)] by (simp add: group_at_def deref_update)
    moreover have "AList.map_entry key u (q # qs) = (key, u (snd q)) # qs"
      using True pq by (cases q) auto
    ultimately show ?thesis using a pq by auto
  next
    case False
    with Cons.prems have m: "map_of ps key = Some a" by (cases p) auto
    from Cons.IH [OF dist(2) m] obtain g where
      g: "deref h a = Some (Group g)"
        "list_all2 (group_at (h[a := Group (u g)])) ps (AList.map_entry key u qs)" by blast
    from m have "a \<in> snd ` set ps" by (force dest: map_of_SomeD)
    with dist have "snd p \<noteq> a" by auto
    then have "group_at (h[a := Group (u g)]) p q"
      using pq by (simp add: group_at_def deref_update)
    moreover have "AList.map_entry key u (q # qs) = q # AList.map_entry key u qs"
      using False pq by (cases q) auto
    ultimately show ?thesis using g by auto
  qed
qed

lemma heap_callback_step:
  assumes n: "n < length h"
    and acc: "deref h n = Some (Props props)"
    and rel: "list_all2 (group_at h) props groups"
    and dist: "distinct (map snd props)"
    and above: "\<forall>p\<in>set props. n < snd p"
    and f: "deref (take n h) f = Some (Finding e)"
  shows "\<exists>h' props'. heap_callback n h f = Some h' \<and> n < length h' \<and>
           take n h' = take n h \<and> deref h' n = Some (Props props') \<and>
           list_all2 (group_at h') props' (group_callback groups e) \<and>
           distinct (map snd props') \<and> (\<forall>p\<in>set props'. n < snd p)"
proof -
  let ?key = "line e"
  let ?rid = "case ruleId e of None \<Rightarrow> ''Eslint'' | Some r \<Rightarrow> r"
  let ?u = "\<lambda>g::group. g\<lparr>message := join_newline [message g, template ?rid (message e)]\<rparr>"
  from f have fe: "deref h f = Some (Finding e)" by (simp add: deref_take)
  show ?thesis
  proof (cases "map_of props ?key")
    case None
    let ?g0 = "\<lparr>line = line e, message = ''''\<rparr>"
    let ?props' = "props @ [(?key, length h)]"
    let ?h1 = "(h @ [Group ?g0])[n := Props ?props']"
    let ?h' = "?h1[length h := Group (?u ?g0)]"
    have up: "AList.update ?key (length h) props = ?props'"
      using None by (simp add: update_fresh)
    have d1: "deref ?h1 n = Some (Props ?props')"
      using n by (simp add: deref_update)
    have d2: "deref ?h1 (length h) = Some (Group ?g0)"
      using n by (simp add: deref_update deref_append)
    have m: "map_of ?props' ?key = Some (length h)"
      using None by (simp add: map_add_Some_iff)
    have call: "heap_callback n h f = Some ?h'"
      using fe acc None up d1 d2 m
      by (simp add: heap_callback_def Let_def)
    have gn: "map_of groups ?key = None"
      using None rel group_at_map_of_None by blast
    have gc: "group_callback groups e = groups @ [(?key, ?u ?g0)]"
      using gn
      by (simp add: group_callback_def Let_def update_fresh map_entry_fresh)
    have same: "\<forall>p\<in>set props. deref ?h' (snd p) = deref h (snd p)"
    proof
      fix p assume p: "p \<in> set props"
      from group_at_bound [OF rel p] above p show "deref ?h' (snd p) = deref h (snd p)"
        by (auto simp: deref_update deref_append)
    qed
    have r1: "list_all2 (group_at ?h') props groups"
      using rel same by (rule group_at_mono)
    have r2: "group_at ?h' (?key, length h) (?key, ?u ?g0)"
      by (simp add: group_at_def deref_update)
    have rel2: "list_all2 (group_at ?h') ?props' (group_callback groups e)"
      unfolding gc using r1 r2 by (simp add: list_all2_appendI)
    have fresh: "length h \<notin> snd ` set props"
      using group_at_bound [OF rel] by fastforce
    have dist2: "distinct (map snd ?props')"
      using dist fresh by simp
    have above2: "\<forall>p\<in>set ?props'. n < snd p"
      using above n by auto
    have tk: "take n ?h' = take n h"
      using n by simp
    have dn: "deref ?h' n = Some (Props ?props')"
      using n d1 by (simp add: deref_update)
    have "n < length ?h'" using n by simp
    with call tk dn rel2 dist2 above2 show ?thesis by blast
  next
    case (Some a)
    from group_at_update [OF rel dist Some, of ?u] obtain g where
      g: "deref h a = Some (Group g)" and
      rel2: "list_all2 (group_at (h[a := Group (?u g)])) props (AList.map_entry ?key ?u groups)"
      by blast
    from Some have "(?key, a) \<in> set props" by (rule map_of_SomeD)
    with above have na: "n < a" by auto
    have call: "heap_callback n h f = Some (h[a := Group (?u g)])"
      using fe acc Some g
      by (simp add: heap_callback_def Let_def)
    have gn: "map_of groups ?key \<noteq> None"
      using Some rel group_at_map_of_None [of h props groups ?key] by simp
    then obtain y where y: "map_of groups ?key = Some y" by blast
    have gc: "group_callback groups e = AList.map_entry ?key ?u groups"
      using y by (simp add: group_callback_def Let_def)
    have tk: "take n (h[a := Group (?u g)]) = take n h"
      using na by simp
    have dn: "deref (h[a := Group (?u g)]) n = Some (Props props)"
      using na acc by (simp add: deref_update)
    have "n < length (h[a := Group (?u g)])" using n by simp
    with call tk dn rel2 dist above show ?thesis unfolding gc by blast
  qed
qed

lemma those_read_groups:
  "list_all2 (group_at h) props groups \<Longrightarrow> those (map (read_group h) props) = Some groups"
  by (induction props groups rule: list_all2_induct) (auto simp: read_group_def group_at_def)

lemma heap_reduce_groups:
  assumes "list_all2 (\<lambda>f e. deref h0 f = Some (Finding e)) fs es"
    and "take n h = h0"
    and "n < length h"
    and "deref h n = Some (Props props)"
    and "list_all2 (group_at h) props groups"
    and "distinct (map snd props)"
    and "\<forall>p\<in>set props. n < snd p"
  shows "\<exists>h' props'. heap_reduce n h fs = Some h' \<and> take n h' = h0 \<and>
           deref h' n = Some (Props props') \<and>
           list_all2 (group_at h') props' (foldl group_callback groups es)"
  using assms
proof (induction fs es arbitrary: h props groups rule: list_all2_induct)
  case Nil
  then show ?case by auto
next
  case (Cons f fs e es)
  from Cons.hyps(1) Cons.prems(1) have fe: "deref (take n h) f = Some (Finding e)" by simp
  from heap_callback_step [OF Cons.prems(2-6) fe] obtain h1 props1 where
    call: "heap_callback n h f = Some h1" and n1: "n < length h1" and
    tk: "take n h1 = take n h" and acc1: "deref h1 n = Some (Props props1)" and
    rel1: "list_all2 (group_at h1) props1 (group_callback groups e)" and
    dist1: "distinct (map snd props1)" and above1: "\<forall>p\<in>set props1. n < snd p"
    by blast
  from tk Cons.prems(1) have tk1: "take n h1 = h0" by simp
  from Cons.IH [OF tk1 n1 acc1 rel1 dist1 above1] obtain h' props' where
    "heap_reduce n h1 fs = Some h'" "take n h' = h0"
    "deref h' n = Some (Props props')"
    "list_all2 (group_at h') props' (foldl group_callback (group_callback groups e) es)"
    by blast
  with call show ?case by auto
qed

lemma groupLintErrorsByLine_heap_refines:
  assumes "list_all2 (\<lambda>f e. deref h f = Some (Finding e)) fs es"
  shows "\<exists>h'. groupLintErrorsByLine_heap h fs = Some (h', length h) \<and>
           take (length h) h' = h \<and>
           read_groups h' (length h) = Some (groupLintErrorsByLine es)"
proof -
  let ?h0 = "h @ [Props []]"
  have "\<exists>h' props'. heap_reduce (length h) ?h0 fs = Some h' \<and>
           take (length h) h' = h \<and>
           deref h' (length h) = Some (Props props') \<and>
           list_all2 (group_at h') props' (foldl group_callback [] es)"
    by (rule heap_reduce_groups [OF assms, where props = "[]" and groups = "[]"])
       (simp_all add: deref_append)
  then obtain h' props' where
    r: "heap_reduce (length h) ?h0 fs = Some h'" and tk: "take (length h) h' = h" and
    acc: "deref h' (length h) = Some (Props props')" and
    rel: "list_all2 (group_at h') props' (groupLintErrorsByLine es)"
    by (auto simp: groupLintErrorsByLine_def)
  have "those (map (read_group h') props') = Some (groupLintErrorsByLine es)"
    using rel by (rule those_read_groups)
  with acc have "read_groups h' (length h) = Some (groupLintErrorsByLine es)"
    by (simp add: read_groups_def)
  with r tk show ?thesis by (simp add: groupLintErrorsByLine_heap_def)
qed

text \<open>
  Claim C7. Run on an array of lint errors, the grouping returns; run a second time on
  the same array, on the heap the first run left, it returns again, and both results
  hold the same grouping, the one the function on values computes from the lint
  errors. Every object that was on the heap before a run is unchanged after it, so the
  lint errors read the same after both runs.
\<close>

theorem aggregation_is_pure:
  assumes "list_all2 (\<lambda>f e. deref h f = Some (Finding e)) fs es"
  shows "\<exists>h1 a1 h2 a2.
           groupLintErrorsByLine_heap h fs = Some (h1, a1) \<and>
           groupLintErrorsByLine_heap h1 fs = Some (h2, a2) \<and>
           read_groups h1 a1 = Some (groupLintErrorsByLine es) \<and>
           read_groups h2 a2 = Some (groupLintErrorsByLine es) \<and>
           take (length h) h1 = h \<and> take (length h) h2 = h \<and>
           list_all2 (\<lambda>f e. deref h1 f = Some (Finding e)) fs es \<and>
           list_all2 (\<lambda>f e. deref h2 f = Some (Finding e)) fs es"
proof -
  from groupLintErrorsByLine_heap_refines [OF assms] obtain h1 where
    r1: "groupLintErrorsByLine_heap h fs = Some (h1, length h)" and
    tk1: "take (length h) h1 = h" and
    g1: "read_groups h1 (length h) = Some (groupLintErrorsByLine es)" by blast
  have keep: "deref h' f = Some x" if "take (length h) h' = h" "deref h f = Some x" for h' f x
  proof -
    from that have "deref (take (length h) h') f = Some x" by simp
    then show ?thesis by (simp add: deref_take)
  qed
  have fs1: "list_all2 (\<lambda>f e. deref h1 f = Some (Finding e)) fs es"
    using assms keep [OF tk1] by (rule list_all2_mono)
  from groupLintErrorsByLine_heap_refines [OF fs1] obtain h2 where
    r2: "groupLintErrorsByLine_heap h1 fs = Some (h2, length h1)" and
    tk2: "take (length h1) h2 = h1" and
    g2: "read_groups h2 (length h1) = Some (groupLintErrorsByLine es)" by blast
  have "length h \<le> length h1" using tk1 by (metis length_take min.cobounded1 min.commute)
  then have "take (length h) h2 = take (length h) (take (length h1) h2)"
    by (simp add: min_def)
  with tk1 tk2 have tk3: "take (length h) h2 = h" by simp
  have fs2: "list_all2 (\<lambda>f e. deref h2 f = Some (Finding e)) fs es"
    using assms keep [OF tk3] by (rule list_all2_mono)
  from r1 r2 g1 g2 tk1 tk3 fs1 fs2 show ?thesis by blast
qed

theorem aggregation_is_pure_witness:
  "\<exists>h1 a1 h2 a2.
     groupLintErrorsByLine_heap
       [Finding \<lparr>line = 3, message = ''m1'', ruleId = Some ''A''\<rparr>,
        Finding \<lparr>line = 3, message = ''m2'', ruleId = None\<rparr>] [0, 1] = Some (h1, a1) \<and>
     groupLintErrorsByLine_heap h1 [0, 1] = Some (h2, a2) \<and>
     read_groups h1 a1 =
       Some [(3, \<lparr>line = 3, message = [CHR 0x0A] @ ''**A**: m1'' @ [CHR 0x0A] @ ''**Eslint**: m2''\<rparr>)] \<and>
     read_groups h2 a2 = read_groups h1 a1 \<and>
     take 2 h1 = [Finding \<lparr>line = 3, message = ''m1'', ruleId = Some ''A''\<rparr>,
        Finding \<lparr>line = 3, message = ''m2'', ruleId = None\<rparr>] \<and>
     take 2 h2 = take 2 h1"
proof -
  let ?h = "[Finding \<lparr>line = 3, message = ''m1'', ruleId = Some ''A''\<rparr>,
        Finding \<lparr>line = 3, message = ''m2'', ruleId = None\<rparr>]"
  let ?es = "[\<lparr>line = 3, message = ''m1'', ruleId = Some ''A''\<rparr>,
        \<lparr>line = 3, message = ''m2'', ruleId = None\<rparr>]"
  have a: "list_all2 (\<lambda>f e. deref ?h f = Some (Finding e)) [0, 1] ?es"
    by (simp add: deref_def)
  have g: "groupLintErrorsByLine ?es =
      [(3, \<lparr>line = 3, message = [CHR 0x0A] @ ''**A**: m1'' @ [CHR 0x0A] @ ''**Eslint**: m2''\<rparr>)]"
    by (simp add: groupLintErrorsByLine_def group_callback_def template_def)
  from aggregation_is_pure [OF a] show ?thesis
    unfolding g by (simp add: numeral_2_eq_2) metis
qed

section \<open>The composed body\<close>

lemma first_seen_snoc:
  "first_seen (ks @ [k]) = (if k \<in> set ks then first_seen ks else first_seen ks @ [k])"
  by (simp add: first_seen_def)

lemma first_seen_set: "set (first_seen ks) = set ks"
  by (simp add: first_seen_def)

lemma first_seen_distinct: "distinct (first_seen ks)"
  by (simp add: first_seen_def)

lemma body_of_snoc:
  "body_of (es @ [e]) k = body_of es k @ (if line e = k then CHR 0x0A # entry_of e else [])"
  by (simp add: body_of_def)

lemma map_of_keyed: "map_of (map (\<lambda>k. (k, g k)) ks) k = (if k \<in> set ks then Some (g k) else None)"
  by (induction ks) auto

lemma map_entry_keyed:
  "distinct ks \<Longrightarrow>
   AList.map_entry k u (map (\<lambda>k'. (k', g k')) ks) =
     map (\<lambda>k'. (k', if k' = k then u (g k') else g k')) ks"
  by (induction ks) auto

text \<open>
  The grouping has one group for each line, in the order the lines are first seen, and
  the body of a group holds the entries of its line in arrival order, each after a
  line feed.
\<close>

lemma groupLintErrorsByLine_closed_form:
  "groupLintErrorsByLine es =
     map (\<lambda>k. (k, \<lparr>line = k, message = body_of es k\<rparr>)) (first_seen (map line es))"
proof (induction es rule: rev_induct)
  case Nil
  show ?case by (simp add: groupLintErrorsByLine_def first_seen_def)
next
  case (snoc e es)
  let ?G = "\<lambda>es k. \<lparr>line = k, message = body_of es k\<rparr>"
  let ?ks = "first_seen (map line es)"
  let ?u = "\<lambda>g::group. g\<lparr>message := join_newline [message g, entry_of e]\<rparr>"
  have step: "groupLintErrorsByLine (es @ [e]) = group_callback (map (\<lambda>k. (k, ?G es k)) ?ks) e"
    using snoc.IH by (simp add: groupLintErrorsByLine_def)
  show ?case
  proof (cases "line e \<in> set (map line es)")
    case True
    then have m: "map_of (map (\<lambda>k. (k, ?G es k)) ?ks) (line e) = Some (?G es (line e))"
      by (simp add: map_of_keyed first_seen_set)
    have "group_callback (map (\<lambda>k. (k, ?G es k)) ?ks) e =
        AList.map_entry (line e) ?u (map (\<lambda>k. (k, ?G es k)) ?ks)"
      using m by (simp add: group_callback_def Let_def entry_of_def)
    also have "\<dots> = map (\<lambda>k. (k, if k = line e then ?u (?G es k) else ?G es k)) ?ks"
      by (rule map_entry_keyed) (rule first_seen_distinct)
    also have "\<dots> = map (\<lambda>k. (k, ?G (es @ [e]) k)) ?ks"
      by (rule map_cong) (auto simp: body_of_snoc)
    finally show ?thesis using True step by (simp add: first_seen_snoc)
  next
    case False
    then have m: "map_of (map (\<lambda>k. (k, ?G es k)) ?ks) (line e) = None"
      by (simp add: map_of_keyed first_seen_set)
    have "\<forall>x\<in>set es. line x \<noteq> line e"
      using False by (metis imageI set_map)
    then have b: "body_of es (line e) = []"
      by (simp add: body_of_def filter_empty_conv)
    have gc: "group_callback (map (\<lambda>k. (k, ?G es k)) ?ks) e =
        map (\<lambda>k. (k, ?G es k)) ?ks @ [(line e, \<lparr>line = line e, message = CHR 0x0A # entry_of e\<rparr>)]"
      using m by (simp add: group_callback_def Let_def entry_of_def update_fresh map_entry_fresh)
    have old: "map (\<lambda>k. (k, ?G es k)) ?ks = map (\<lambda>k. (k, ?G (es @ [e]) k)) ?ks"
      using False by (intro map_cong refl) (auto simp: body_of_snoc first_seen_set)
    have new: "?G (es @ [e]) (line e) = \<lparr>line = line e, message = CHR 0x0A # entry_of e\<rparr>"
      using b by (simp add: body_of_snoc)
    have ks: "first_seen (map line (es @ [e])) = ?ks @ [line e]"
      using False by (simp add: first_seen_snoc)
    have "groupLintErrorsByLine (es @ [e]) =
        map (\<lambda>k. (k, ?G es k)) ?ks @ [(line e, \<lparr>line = line e, message = CHR 0x0A # entry_of e\<rparr>)]"
      by (simp only: step gc)
    also have "\<dots> = map (\<lambda>k. (k, ?G (es @ [e]) k)) ?ks @ [(line e, ?G (es @ [e]) (line e))]"
      by (simp only: old new)
    also have "\<dots> = map (\<lambda>k. (k, ?G (es @ [e]) k)) (?ks @ [line e])"
      by simp
    finally show ?thesis by (simp only: ks)
  qed
qed

text \<open>
  Claim C2. On the findings \<^verbatim>\<open>[{line:3,ruleId:"A"},{line:3,ruleId:"B"}]\<close> the body of
  the group is a line feed, the entry of \<open>A\<close>, a line feed and the entry of \<open>B\<close>: the
  entries are in arrival order, and the body begins with a line feed, because the
  first entry is joined to the empty message the group starts with. So the body is
  not the two entries joined by one line feed. The \<^verbatim>\<open>sendSingleComment\<close> that builds the
  body itself sends the entry of \<open>A\<close> with nothing before it.
\<close>

theorem group_body_leading_newline:
  "groupLintErrorsByLine
     [\<lparr>line = 3, message = ''m1'', ruleId = Some ''A''\<rparr>,
      \<lparr>line = 3, message = ''m2'', ruleId = Some ''B''\<rparr>]
   = [(3, \<lparr>line = 3, message = [CHR 0x0A] @ ''**A**: m1'' @ [CHR 0x0A] @ ''**B**: m2''\<rparr>)] \<and>
   [CHR 0x0A] @ ''**A**: m1'' @ [CHR 0x0A] @ ''**B**: m2'' \<noteq> ''**A**: m1'' @ [CHR 0x0A] @ ''**B**: m2'' \<and>
   sendSingleComment_part_001_314 \<lparr>REPOSITORY_OWNER = ''o'', REPOSITORY_NAME = ''r''\<rparr> ''a.js''
       [3 \<mapsto> 1] \<lparr>line = 3, message = ''m1'', ruleId = Some ''A''\<rparr> ''c0ffee'' 7
   = [\<lparr>user = ''o'', repo = ''r'', number = 7, body = ''**A**: m1'',
       commit_id = ''c0ffee'', path = ''a.js'', position = 1\<rparr>]"
  by (simp add: groupLintErrorsByLine_def group_callback_def template_def
      sendSingleComment_part_001_314_def)

end
